theory Spec2Isabelle
  imports Main
begin

text \<open>
  A model of \<^verbatim>\<open>src/index.js\<close>, the plugin that links the dependencies of one package
  of a monorepo into its \<^verbatim>\<open>node_modules\<close> before packaging, and removes the links
  afterwards.  The definitions follow the functions of the source:
  \<^verbatim>\<open>getNodeModulePaths\<close>, \<^verbatim>\<open>link\<close>, \<^verbatim>\<open>linkPackage\<close>, \<^verbatim>\<open>clean\<close>, \<^verbatim>\<open>initialise\<close>,
  \<^verbatim>\<open>processLinkages\<close> and \<^verbatim>\<open>getWorkspaceDependencies\<close>.  What the source takes from Node
  and \<^verbatim>\<open>fs-extra\<close> is modelled as follows.
  \<^item> Paths are absolute POSIX paths.
  \<^item> \<^verbatim>\<open>require.resolve\<close> and \<^verbatim>\<open>fs.existsSync\<close> are parameters.  They answer the same
    throughout a run: the links a run creates do not change what its later lookups
    find.
  \<^item> \<^verbatim>\<open>require\<close> of a manifest is the module loader with its cache.
  \<^item> The calls started together by one \<^verbatim>\<open>Promise.all\<close> are run one after the other.
  \<^item> An exception or a rejected promise is an error value.
\<close>

section \<open>Paths\<close>

text \<open>
  The plugin handles absolute POSIX paths through Node's \<^verbatim>\<open>path\<close> module.  A path is
  modelled by the list of its segments, so \<^verbatim>\<open>/ws/pkgA\<close> is \<open>[''ws'', ''pkgA'']\<close> and
  the root is \<open>[]\<close>.  Package names and workspace entries stay strings: they are split
  at the separator when they are joined onto a path.
\<close>

type_synonym path = "string list"

text \<open>\<^verbatim>\<open>s.split('/')\<close>: the pieces of \<open>s\<close> between separators (never an empty list).\<close>

fun split_sep :: "string \<Rightarrow> string list" where
  "split_sep [] = [[]]"
| "split_sep (c # cs) =
     (if c = CHR ''/'' then [] # split_sep cs
      else (case split_sep cs of [] \<Rightarrow> [[c]] | w # ws \<Rightarrow> (c # w) # ws))"

text \<open>
  \<^verbatim>\<open>path.normalize\<close> on the segments of an absolute path: empty segments and \<^verbatim>\<open>.\<close>
  disappear, \<^verbatim>\<open>..\<close> removes the segment before it (and nothing at the root).  The
  accumulator holds the segments kept so far, last one first.
\<close>

fun normalize_acc :: "path \<Rightarrow> string list \<Rightarrow> path" where
  "normalize_acc acc [] = rev acc"
| "normalize_acc acc (s # ss) =
     (if s = [] \<or> s = ''.'' then normalize_acc acc ss
      else if s = ''..'' then normalize_acc (tl acc) ss
      else normalize_acc (s # acc) ss)"

definition normalize :: "string list \<Rightarrow> path" where
  "normalize ss = normalize_acc [] ss"

text \<open>\<^verbatim>\<open>path.join(base, s)\<close> for an absolute \<open>base\<close> and a string \<open>s\<close>.\<close>

definition path_join :: "path \<Rightarrow> string \<Rightarrow> path" where
  "path_join base s = normalize (base @ split_sep s)"

text \<open>\<^verbatim>\<open>path.dirname(p)\<close> for an absolute path (the root is its own parent).\<close>

definition path_dirname :: "path \<Rightarrow> path" where
  "path_dirname p = butlast p"

text \<open>
  \<^verbatim>\<open>path.join(base, path.dirname(name))\<close> for a relative string \<open>name\<close>:
  \<^verbatim>\<open>path.dirname\<close> cuts the string before its last non-empty piece, and the join
  normalises what is left.
\<close>

definition path_join_dirname :: "path \<Rightarrow> string \<Rightarrow> path" where
  "path_join_dirname base name =
     normalize (base @ butlast (filter (\<lambda>s. s \<noteq> []) (split_sep name)))"

text \<open>
  \<^verbatim>\<open>path.relative(from, to)\<close> for two absolute paths: one \<^verbatim>\<open>..\<close> for every segment of
  \<open>from\<close> below the common prefix, then the rest of \<open>to\<close>.
\<close>

fun path_relative :: "path \<Rightarrow> path \<Rightarrow> path" where
  "path_relative (a # as) (b # bs) =
     (if a = b then path_relative as bs
      else replicate (Suc (length as)) ''..'' @ (b # bs))"
| "path_relative from to = replicate (length from) ''..'' @ to"

section \<open>Manifests and the module loader\<close>

text \<open>
  A manifest is what \<^verbatim>\<open>require\<close> returns for a \<^verbatim>\<open>package.json\<close>, with the defaults of
  the destructuring patterns applied (\<^verbatim>\<open>dependencies = {}\<close>, \<^verbatim>\<open>workspaces = []\<close>).
  \<open>dependencies\<close> lists the own properties of the object in the order of
  \<^verbatim>\<open>Object.keys\<close>, each with its version string.
\<close>

record manifest =
  dependencies :: "(string \<times> string) list"
  workspaces :: "string list"

text \<open>
  Every manifest is read with \<^verbatim>\<open>require\<close>, which answers from the module cache when
  the file name has been loaded before in this process and reads the file only
  otherwise.  \<open>files\<close> is the content of the manifests on disk, \<open>cache\<close> the module
  cache.  \<open>requireResolve name paths\<close> stands for
  \<^verbatim>\<open>require.resolve(path.join(name, 'package.json'), { paths })\<close> (\<open>None\<close> when it
  throws) and \<open>existsSync\<close> for \<^verbatim>\<open>fs.existsSync\<close>; both are parameters of the model,
  and neither depends on the links created so far.
\<close>

record env =
  requireResolve :: "string \<Rightarrow> path list \<Rightarrow> path option"
  existsSync :: "path \<Rightarrow> bool"
  files :: "(path \<times> manifest) list"
  cache :: "(path \<times> manifest) list"

datatype errno = EEXIST | ENOENT | ENOTDIR | ENOTEMPTY | EACCES

datatype error =
    ModuleNotFound path  \<comment> \<open>\<^verbatim>\<open>require(p)\<close> of a file that is not there\<close>
  | InvalidArgType  \<comment> \<open>\<^verbatim>\<open>path.dirname(undefined)\<close>: TypeError, ERR_INVALID_ARG_TYPE\<close>
  | FsError errno  \<comment> \<open>a rejected file system call\<close>

text \<open>\<^verbatim>\<open>require(p)\<close>: the value, and the loader with its cache updated.\<close>

definition require_json :: "env \<Rightarrow> path \<Rightarrow> (error + manifest) \<times> env" where
  "require_json e p =
     (case map_of (cache e) p of
        Some m \<Rightarrow> (Inr m, e)
      | None \<Rightarrow>
          (case map_of (files e) p of
             None \<Rightarrow> (Inl (ModuleNotFound p), e)
           | Some m \<Rightarrow> (Inr m, e\<lparr>cache := (p, m) # cache e\<rparr>)))"

section \<open>Workspace selection\<close>

text \<open>
  The settings computed by the constructor: \<open>workspacePath\<close> is \<open>s_path\<close> without its
  last segment (\<^verbatim>\<open>splitPath.slice(0, splitPath.length - 1).join('/')\<close>).
\<close>

record settings =
  s_path :: path
  workspacePath :: path

definition mkSettings :: "path \<Rightarrow> settings" where
  "mkSettings p = \<lparr>s_path = p, workspacePath = butlast p\<rparr>"

text \<open>
  The properties every object literal inherits from \<^verbatim>\<open>Object.prototype\<close>: a lookup
  \<^verbatim>\<open>dependencies[k]\<close> finds them when \<open>k\<close> is not an own property.
\<close>

definition objectPrototypeKeys :: "string list" where
  "objectPrototypeKeys =
     [''constructor'', ''__defineGetter__'', ''__defineSetter__'', ''hasOwnProperty'',
      ''__lookupGetter__'', ''__lookupSetter__'', ''isPrototypeOf'',
      ''propertyIsEnumerable'', ''toString'', ''valueOf'', ''__proto__'',
      ''toLocaleString'']"

text \<open>
  The condition \<^verbatim>\<open>if (dependencies[k])\<close>: an own property is truthy when its version
  string is not empty, an inherited one always is, a missing one is \<^verbatim>\<open>undefined\<close>.
\<close>

definition truthyProperty :: "(string \<times> string) list \<Rightarrow> string \<Rightarrow> bool" where
  "truthyProperty deps k =
     (case map_of deps k of
        Some v \<Rightarrow> v \<noteq> []
      | None \<Rightarrow> k \<in> set objectPrototypeKeys)"

text \<open>
  The loop shared by \<^verbatim>\<open>getWorkspaceDependencies\<close> and \<^verbatim>\<open>initialise\<close>:
  \<^verbatim>\<open>for (let i = 0; i < workspaces.length; ++i)\<close>, pushing \<^verbatim>\<open>workspaces[i]\<close> onto the
  array \<open>acc\<close> when \<^verbatim>\<open>dependencies[workspaces[i]]\<close> is truthy.
\<close>

function pushRelevant ::
  "(string \<times> string) list \<Rightarrow> string list \<Rightarrow> nat \<Rightarrow> string list \<Rightarrow> string list" where
  "pushRelevant deps ws i acc =
     (if i < length ws
      then pushRelevant deps ws (Suc i)
             (if truthyProperty deps (ws ! i) then acc @ [ws ! i] else acc)
      else acc)"
  by pat_completeness auto
termination
  by (relation "measure (\<lambda>(deps, ws, i, acc). length ws - i)") auto

declare pushRelevant.simps [simp del]

text \<open>The selection as a function of the two manifests.\<close>

definition relevantWorkspaces :: "manifest \<Rightarrow> manifest \<Rightarrow> string list" where
  "relevantWorkspaces target root = pushRelevant (dependencies target) (workspaces root) 0 []"

text \<open>\<^verbatim>\<open>getWorkspaceDependencies()\<close>: the two reads, then the loop.\<close>

definition getWorkspaceDependencies :: "settings \<Rightarrow> env \<Rightarrow> (error + string list) \<times> env" where
  "getWorkspaceDependencies cfg e =
     (case require_json e (path_join (s_path cfg) ''package.json'') of
        (Inl err, e1) \<Rightarrow> (Inl err, e1)
      | (Inr target, e1) \<Rightarrow>
          (case require_json e1 (path_join (workspacePath cfg) ''package.json'') of
             (Inl err, e2) \<Rightarrow> (Inl err, e2)
           | (Inr root, e2) \<Rightarrow> (Inr (relevantWorkspaces target root), e2)))"

text \<open>
  The selection as the specification words it: the entries of the workspaces list whose
  final path component is a key of the target's dependencies.
\<close>

definition finalComponent :: "string \<Rightarrow> string" where
  "finalComponent w = last (split_sep w)"

definition spec_selectedWorkspaces :: "manifest \<Rightarrow> manifest \<Rightarrow> string list" where
  "spec_selectedWorkspaces target root =
     filter (\<lambda>w. finalComponent w \<in> set (map fst (dependencies target))) (workspaces root)"

section \<open>Module resolution\<close>

text \<open>
  \<^verbatim>\<open>getNodeModulePaths(p)\<close>.  \<open>splitPath p\<close> is \<^verbatim>\<open>p.split(path.sep)\<close> for the absolute path
  \<open>p\<close>: an empty piece for the leading separator, then the segments (the root
  \<^verbatim>\<open>/\<close> splits into two empty pieces).  The loop pushes
  \<^verbatim>\<open>path.join(paths.join(path.sep) || path.sep, 'node_modules')\<close> and pops the last
  piece until none is left.
\<close>

definition splitPath :: "path \<Rightarrow> string list" where
  "splitPath p = (if p = [] then [[], []] else [] # p)"

function nodeModulePathsLoop :: "string list \<Rightarrow> path list \<Rightarrow> path list" where
  "nodeModulePathsLoop paths result =
     (if paths \<noteq> []
      then nodeModulePathsLoop (butlast paths)
             (result @ [normalize (paths @ [''node_modules''])])
      else result)"
  by pat_completeness auto
termination
  by (relation "measure (\<lambda>(paths, result). length paths)") auto

declare nodeModulePathsLoop.simps [simp del]

definition getNodeModulePaths :: "path \<Rightarrow> path list" where
  "getNodeModulePaths p = nodeModulePathsLoop (splitPath p) []"

text \<open>
  The fallback of \<^verbatim>\<open>linkPackage\<close>: the first candidate directory \<open>pth\<close> for which
  \<^verbatim>\<open>path.join(pth, name, 'package.json')\<close> exists.
\<close>

fun scanPaths :: "env \<Rightarrow> string \<Rightarrow> path list \<Rightarrow> path option" where
  "scanPaths e name [] = None"
| "scanPaths e name (pth # rest) =
     (if existsSync e (normalize (pth @ split_sep name @ [''package.json'']))
      then Some (normalize (pth @ split_sep name @ [''package.json'']))
      else scanPaths e name rest)"

text \<open>
  The value of \<^verbatim>\<open>pkg\<close> after both attempts; \<open>None\<close> is \<^verbatim>\<open>undefined\<close>.  The error of
  \<^verbatim>\<open>require.resolve\<close> is swallowed by the empty \<^verbatim>\<open>catch\<close>.
\<close>

definition resolvePkg :: "env \<Rightarrow> string \<Rightarrow> path list \<Rightarrow> path option" where
  "resolvePkg e name paths =
     (case requireResolve e name paths of
        Some pkg \<Rightarrow> Some pkg
      | None \<Rightarrow> scanPaths e name paths)"

text \<open>
  \<^verbatim>\<open>(pkg.match(/node_modules/g) || []).length\<close>.  \<open>matchCount\<close> counts the matches of
  the pattern in one string from left to right; the pattern holds no separator, so every
  match in the path lies inside one segment.
\<close>

function matchCount :: "string \<Rightarrow> nat" where
  "matchCount s =
     (if s = [] then 0
      else if take 12 s = ''node_modules'' then Suc (matchCount (drop 12 s))
      else matchCount (tl s))"
  by pat_completeness auto
termination
  by (relation "measure length") auto

declare matchCount.simps [simp del]

definition nodeModulesMatches :: "path \<Rightarrow> nat" where
  "nodeModulesMatches pkg = sum_list (map matchCount pkg)"

section \<open>Creating links\<close>

text \<open>
  The two calls of \<^verbatim>\<open>fs-extra\<close> that create something are parameters: \<open>ensureDir p d\<close>
  and \<open>symlink target f d\<close> answer, for the state \<open>d\<close> of the disk, either the error code
  of the rejection or the new state.  Every result about \<^verbatim>\<open>link\<close> and \<^verbatim>\<open>linkPackage\<close>
  that does not name a file system holds for all of them.
\<close>

record 'fs fsapi =
  ensureDir :: "path \<Rightarrow> 'fs \<Rightarrow> errno + 'fs"
  symlink :: "path \<Rightarrow> path \<Rightarrow> 'fs \<Rightarrow> errno + 'fs"

text \<open>\<^verbatim>\<open>link(target, f)\<close>: only the rejection of \<^verbatim>\<open>fs.symlink\<close> passes through the \<^verbatim>\<open>catch\<close>.\<close>

definition link :: "'fs fsapi \<Rightarrow> path \<Rightarrow> path \<Rightarrow> 'fs \<Rightarrow> errno + 'fs" where
  "link api target f d =
     (case ensureDir api (path_dirname f) d of
        Inl err \<Rightarrow> Inl err
      | Inr d1 \<Rightarrow>
          (case symlink api target f d1 of
             Inl err \<Rightarrow> (if err = EEXIST then Inr d1 else Inl err)
           | Inr d2 \<Rightarrow> Inr d2))"

text \<open>
  The state of one linkage pass: the set \<^verbatim>\<open>created\<close>, the disk, and the list of the calls
  of \<^verbatim>\<open>link\<close> made so far (name, resolved manifest, link target, link file), which the
  results below count.
\<close>

record link_call =
  l_name :: string
  l_pkg :: path
  l_target :: path
  l_file :: path

record 'fs lstate =
  created :: "string set"
  trace :: "link_call list"
  disk :: "'fs"

text \<open>
  Lines 84 to 88 of \<^verbatim>\<open>linkPackage\<close>: the target is
  \<^verbatim>\<open>path.relative(path.join(toPath, path.dirname(name)), path.dirname(pkg))\<close>; when the
  manifest path has at most one match and the name is not in \<^verbatim>\<open>created\<close>, the name is
  added and \<^verbatim>\<open>link(target, path.join(toPath, name))\<close> is awaited.
\<close>

definition createLink ::
  "'fs fsapi \<Rightarrow> string \<Rightarrow> path \<Rightarrow> path \<Rightarrow> 'fs lstate \<Rightarrow> error + 'fs lstate" where
  "createLink api name pkg toPath st =
     (if nodeModulesMatches pkg \<le> 1 \<and> name \<notin> created st
      then (case link api (path_relative (path_join_dirname toPath name) (path_dirname pkg))
                   (path_join toPath name) (disk st) of
              Inl err \<Rightarrow> Inl (FsError err)
            | Inr d \<Rightarrow>
                Inr \<lparr>created = insert name (created st),
                     trace = trace st @
                       [\<lparr>l_name = name, l_pkg = pkg,
                         l_target = path_relative (path_join_dirname toPath name) (path_dirname pkg),
                         l_file = path_join toPath name\<rparr>],
                     disk = d\<rparr>)
      else Inr st)"

text \<open>
  The value of \<^verbatim>\<open>require(p)\<close>.  A pass keeps one loader: the code writes no manifest, and
  a read leaves the answers of all later reads as they were (\<open>requireValue_after\<close> below).
\<close>

definition requireValue :: "env \<Rightarrow> path \<Rightarrow> error + manifest" where
  "requireValue e p = fst (require_json e p)"

section \<open>The recursive link builder\<close>

text \<open>
  The measure for the recursion below.  Every name that a recursive call of
  \<^verbatim>\<open>linkPackage\<close> receives is a key of the dependencies of a manifest the loader can
  return, and there are finitely many of those.  Each descent adds a new name to the
  ancestors, so the number of names still missing from them decreases.
\<close>

definition depNames :: "env \<Rightarrow> string set" where
  "depNames e = (\<Union>(p, m) \<in> set (cache e @ files e). fst ` set (dependencies m))"

definition pendingNames :: "env \<Rightarrow> string set \<Rightarrow> string list \<Rightarrow> nat" where
  "pendingNames e names resolved = card ((depNames e \<union> names) - set resolved)"

lemma requireValue_depNames:
  "requireValue e p = Inr m \<Longrightarrow> fst ` set (dependencies m) \<subseteq> depNames e"
  by (auto simp: requireValue_def require_json_def depNames_def
      split: option.splits dest!: map_of_SomeD)

lemma finite_depNames: "finite (depNames e)"
  by (auto simp: depNames_def)

lemma pendingNames_descend:
  assumes "name \<notin> set resolved" and "requireValue e pkg = Inr m"
  shows "pendingNames e (fst ` set (dependencies m)) (resolved @ [name])
           < pendingNames e {name} resolved"
proof -
  have sub: "fst ` set (dependencies m) \<subseteq> depNames e"
    using assms(2) by (rule requireValue_depNames)
  have "(depNames e \<union> fst ` set (dependencies m)) - set (resolved @ [name])
          \<subset> (depNames e \<union> {name}) - set resolved"
    using sub assms(1) by auto
  moreover have "finite ((depNames e \<union> {name}) - set resolved)"
    by (simp add: finite_depNames)
  ultimately show ?thesis
    unfolding pendingNames_def by (rule psubset_card_mono[rotated])
qed

lemma pendingNames_mono:
  "names \<subseteq> names' \<Longrightarrow> finite names' \<Longrightarrow>
     pendingNames e names resolved \<le> pendingNames e names' resolved"
  unfolding pendingNames_def
  by (rule card_mono) (auto simp: finite_depNames)

text \<open>
  \<^verbatim>\<open>linkPackage(name, fromPath, toPath, created, resolved)\<close>, and \<open>linkAll\<close> for
  \<^verbatim>\<open>Promise.all(Object.keys(dependencies).map(dep => this.linkPackage(dep, ...)))\<close>.
  The calls of one \<^verbatim>\<open>Promise.all\<close> are taken in the order of the keys, each one run to
  its end before the next starts, and the first rejection is the result; what the
  calls still in flight do after a rejection is not part of the model.  An exception
  is \<open>Inl\<close>.
\<close>

function linkPackage ::
    "'fs fsapi \<Rightarrow> env \<Rightarrow> string \<Rightarrow> path \<Rightarrow> path \<Rightarrow> string list \<Rightarrow> 'fs lstate
      \<Rightarrow> error + 'fs lstate"
  and linkAll ::
    "'fs fsapi \<Rightarrow> env \<Rightarrow> string list \<Rightarrow> path \<Rightarrow> path \<Rightarrow> string list \<Rightarrow> 'fs lstate
      \<Rightarrow> error + 'fs lstate" where
  "linkPackage api e name fromPath toPath resolved st =
     (if name \<in> set resolved then Inr st
      else (case resolvePkg e name (getNodeModulePaths fromPath) of
              None \<Rightarrow> Inl InvalidArgType
            | Some pkg \<Rightarrow>
                (case createLink api name pkg toPath st of
                   Inl err \<Rightarrow> Inl err
                 | Inr st1 \<Rightarrow>
                     (case requireValue e pkg of
                        Inl err \<Rightarrow> Inl err
                      | Inr m \<Rightarrow>
                          linkAll api e (map fst (dependencies m)) (path_dirname pkg) toPath
                            (resolved @ [name]) st1))))"
| "linkAll api e [] fromPath toPath resolved st = Inr st"
| "linkAll api e (dep # deps) fromPath toPath resolved st =
     (case linkPackage api e dep fromPath toPath resolved st of
        Inl err \<Rightarrow> Inl err
      | Inr st1 \<Rightarrow> linkAll api e deps fromPath toPath resolved st1)"
  by pat_completeness auto

text \<open>
  Every call is in the domain of the definition: from no call does a chain of recursive
  calls go on for ever.
\<close>

lemma linkPackage_terminates: "All linkPackage_linkAll_dom"
proof (relation "(\<lambda>x. case x of
            Inl (api, e, name, fromPath, toPath, resolved, st) \<Rightarrow>
              pendingNames e {name} resolved
          | Inr (api, e, deps, fromPath, toPath, resolved, st) \<Rightarrow>
              pendingNames e (set deps) resolved)
         <*mlex*> measure (\<lambda>x. case x of
            Inl (api, e, name, fromPath, toPath, resolved, st) \<Rightarrow> 0
          | Inr (api, e, deps, fromPath, toPath, resolved, st) \<Rightarrow> Suc (length deps))",
       goal_cases)
  case 1
  show ?case by (simp add: wf_mlex)
next
  case (2 api e name fromPath toPath resolved st pkg st1 m)
  then show ?case
    by (auto intro!: mlex_less pendingNames_descend)
next
  case (3 api e dep deps fromPath toPath resolved st)
  show ?case
    by (rule mlex_leq) (auto intro!: pendingNames_mono)
next
  case (4 api e dep deps fromPath toPath resolved st st1)
  show ?case
    by (rule mlex_leq) (auto intro!: pendingNames_mono)
qed

termination linkPackage
  by (rule linkPackage_terminates)

declare linkPackage.simps [simp del]

section \<open>Setup\<close>



text \<open>
  The first half of \<^verbatim>\<open>initialise\<close>: the two manifests are read,
  \<^verbatim>\<open>workspacesToLink\<close> starts as the array returned by \<^verbatim>\<open>getWorkspaceDependencies()\<close>,
  and the loop of lines 147 to 152 pushes onto it.
\<close>

definition workspacesToLink :: "settings \<Rightarrow> env \<Rightarrow> (error + string list) \<times> env" where
  "workspacesToLink cfg e =
     (case require_json e (path_join (s_path cfg) ''package.json'') of
        (Inl err, e1) \<Rightarrow> (Inl err, e1)
      | (Inr target, e1) \<Rightarrow>
          (case require_json e1 (path_join (workspacePath cfg) ''package.json'') of
             (Inl err, e2) \<Rightarrow> (Inl err, e2)
           | (Inr root, e2) \<Rightarrow>
               (case getWorkspaceDependencies cfg e2 of
                  (Inl err, e3) \<Rightarrow> (Inl err, e3)
                | (Inr relevant, e3) \<Rightarrow>
                    (Inr (pushRelevant (dependencies target) (workspaces root) 0 relevant),
                     e3))))"

text \<open>
  The linkage paths of \<^verbatim>\<open>initialise\<close> in the order in which their passes are awaited:
  \<^verbatim>\<open>path.join(workspacePath, w)\<close> for every entry of \<^verbatim>\<open>workspacesToLink\<close>, then the
  target path.
\<close>

definition linkageRoots :: "settings \<Rightarrow> string list \<Rightarrow> path list" where
  "linkageRoots cfg ws = map (path_join (workspacePath cfg)) ws @ [s_path cfg]"


section \<open>A file system of directories, files and links\<close>

text \<open>
  The disk as a tree.  A directory lists its entries by name; a symbolic link holds
  its target.  The two operations below are those of a POSIX file system, except that
  they never follow a symbolic link: a link met where a directory is needed is
  answered like a file.
\<close>

datatype node = File | Symlink path | Dir "(string \<times> node) list"

fun lookup :: "node \<Rightarrow> path \<Rightarrow> node option" where
  "lookup n [] = Some n"
| "lookup (Dir es) (x # xs) = (case map_of es x of None \<Rightarrow> None | Some c \<Rightarrow> lookup c xs)"
| "lookup n (x # xs) = None"

text \<open>The entry that \<open>lookup\<close> finds under the name \<open>x\<close> becomes \<open>c\<close>.\<close>

fun replaceEntry ::
  "string \<Rightarrow> node \<Rightarrow> (string \<times> node) list \<Rightarrow> (string \<times> node) list" where
  "replaceEntry x c [] = []"
| "replaceEntry x c (en # es) =
     (if fst en = x then (x, c) # es else en # replaceEntry x c es)"

fun mkdirs :: "path \<Rightarrow> node" where
  "mkdirs [] = Dir []"
| "mkdirs (x # xs) = Dir [(x, mkdirs xs)]"

fun tree_ensureDir :: "path \<Rightarrow> node \<Rightarrow> errno + node" where
  "tree_ensureDir [] (Dir es) = Inr (Dir es)"
| "tree_ensureDir [] n = Inl EEXIST"
| "tree_ensureDir (x # xs) (Dir es) =
     (case map_of es x of
        None \<Rightarrow> Inr (Dir (es @ [(x, mkdirs xs)]))
      | Some c \<Rightarrow>
          (case tree_ensureDir xs c of
             Inl err \<Rightarrow> Inl err
           | Inr c' \<Rightarrow> Inr (Dir (replaceEntry x c' es))))"
| "tree_ensureDir (x # xs) n = Inl ENOTDIR"

fun tree_symlink :: "path \<Rightarrow> path \<Rightarrow> node \<Rightarrow> errno + node" where
  "tree_symlink target [] n = Inl EEXIST"
| "tree_symlink target [x] (Dir es) =
     (case map_of es x of
        None \<Rightarrow> Inr (Dir (es @ [(x, Symlink target)]))
      | Some c \<Rightarrow> Inl EEXIST)"
| "tree_symlink target (x # y # ys) (Dir es) =
     (case map_of es x of
        None \<Rightarrow> Inl ENOENT
      | Some c \<Rightarrow>
          (case tree_symlink target (y # ys) c of
             Inl err \<Rightarrow> Inl err
           | Inr c' \<Rightarrow> Inr (Dir (replaceEntry x c' es))))"
| "tree_symlink target (x # xs) n = Inl ENOTDIR"

definition treeApi :: "node fsapi" where
  "treeApi = \<lparr>ensureDir = tree_ensureDir, symlink = tree_symlink\<rparr>"

section \<open>Cleaning\<close>

text \<open>
  The inner function \<^verbatim>\<open>clean(p)\<close>.  What \<^verbatim>\<open>fs.pathExists(p)\<close> and \<^verbatim>\<open>fs.readdir(p)\<close> find
  at \<open>p\<close> is nothing, something that is not a directory, or a directory with its
  entries; \<^verbatim>\<open>fs.lstat\<close> gives the kind of each entry.
\<close>

datatype stat = NoEntry | NotDirectory | Directory "(string \<times> node) list"

definition isSymbolicLink :: "node \<Rightarrow> bool" where
  "isSymbolicLink n = (case n of Symlink t \<Rightarrow> True | _ \<Rightarrow> False)"

definition isDirectory :: "node \<Rightarrow> bool" where
  "isDirectory n = (case n of Dir es \<Rightarrow> True | _ \<Rightarrow> False)"

text \<open>\<^verbatim>\<open>c.s.isDirectory() && c.f.startsWith('@')\<close>\<close>

definition isScopedPkgDir :: "string \<times> node \<Rightarrow> bool" where
  "isScopedPkgDir c = (isDirectory (snd c) \<and> take 1 (fst c) = ''@'')"

fun readdir :: "node \<Rightarrow> (string \<times> node) list" where
  "readdir (Dir es) = es"
| "readdir n = []"

lemma size_readdir:
  "c \<in> set listing \<Longrightarrow>
     size_list (size_prod (\<lambda>x. 0) size) (readdir (snd c))
       < size_list (size_prod (\<lambda>x. 0) size) listing"
proof (induction listing)
  case Nil
  then show ?case by simp
next
  case (Cons a listing)
  then show ?case
    by (cases c; cases "snd c") auto
qed

text \<open>
  \<open>cleanEntries listing\<close> is \<^verbatim>\<open>clean(p)\<close> for a directory \<open>p\<close> with the entries
  \<open>listing\<close>.  It returns what is left of the directory (\<open>None\<close> when \<^verbatim>\<open>fs.rmdir(p)\<close>
  has removed it) and the error \<^verbatim>\<open>clean(p)\<close> rejects with, if any.

  \<open>contents\<close> is the array after the links have been unlinked.  An entry that
  \<^verbatim>\<open>isScopedPkgDir\<close> accepts is cleaned by the recursive call, every other one is left
  alone; the recursive calls work on different directories, so their order does not
  matter.  When one of them rejects, \<^verbatim>\<open>clean(p)\<close> rejects before its last step; the
  directory returned is the one left when all the calls started have finished.
  Otherwise \<^verbatim>\<open>fs.rmdir(p)\<close> is called when no entry is left in \<^verbatim>\<open>contents\<close> after the
  second filter, and rejects with \<^verbatim>\<open>ENOTEMPTY\<close> when the directory still has an entry.
\<close>

function cleanEntries ::
  "(string \<times> node) list \<Rightarrow> (string \<times> node) list option \<times> errno option" where
  "cleanEntries listing =
     (let contents = filter (\<lambda>c. \<not> isSymbolicLink (snd c)) listing;
          outcomes = map (\<lambda>c. if isScopedPkgDir c
                               then (case cleanEntries (readdir (snd c)) of
                                       (r, err) \<Rightarrow> (fst c, map_option Dir r, err))
                               else (fst c, Some (snd c), None)) contents;
          remaining = concat (map (\<lambda>(f, r, err). case r of None \<Rightarrow> [] | Some n \<Rightarrow> [(f, n)])
                                outcomes);
          errors = concat (map (\<lambda>(f, r, err). case err of None \<Rightarrow> [] | Some x \<Rightarrow> [x])
                             outcomes)
      in if errors \<noteq> [] then (Some remaining, Some (hd errors))
         else if filter (\<lambda>c. \<not> isScopedPkgDir c) contents = []
         then (if remaining = [] then (None, None) else (Some remaining, Some ENOTEMPTY))
         else (Some remaining, None))"
  by pat_completeness auto
termination
  by (relation "measure (size_list (size_prod (\<lambda>x. 0) size))")
    (auto dest!: size_readdir)

declare cleanEntries.simps [simp del]

text \<open>\<^verbatim>\<open>clean(p)\<close>: nothing to do when \<open>p\<close> does not exist; \<^verbatim>\<open>fs.readdir\<close> rejects a non-directory.\<close>

fun clean :: "stat \<Rightarrow> stat \<times> errno option" where
  "clean NoEntry = (NoEntry, None)"
| "clean NotDirectory = (NotDirectory, Some ENOTDIR)"
| "clean (Directory listing) =
     (case cleanEntries listing of
        (None, err) \<Rightarrow> (NoEntry, err)
      | (Some remaining, err) \<Rightarrow> (Directory remaining, err))"

text \<open>
  The steps of the cleaner as the specification words them: remove every entry that is
  a symbolic link, clean every remaining directory whose name begins with \<^verbatim>\<open>@\<close>, then
  remove the directory if it has no entry left.
\<close>

function spec_clean :: "(string \<times> node) list \<Rightarrow> (string \<times> node) list option" where
  "spec_clean listing =
     (let survivors = concat (map (\<lambda>c.
            if isSymbolicLink (snd c) then []
            else if isDirectory (snd c) \<and> take 1 (fst c) = ''@''
            then (case spec_clean (readdir (snd c)) of
                    None \<Rightarrow> []
                  | Some r \<Rightarrow> [(fst c, Dir r)])
            else [c]) listing)
      in if survivors = [] then None else Some survivors)"
  by pat_completeness auto
termination
  by (relation "measure (size_list (size_prod (\<lambda>x. 0) size))")
    (auto dest!: size_readdir)

declare spec_clean.simps [simp del]

text \<open>The paths of the regular files below a directory.\<close>

fun regularFiles :: "node \<Rightarrow> path list"
  and regularFilesIn :: "(string \<times> node) list \<Rightarrow> path list" where
  "regularFiles File = [[]]"
| "regularFiles (Symlink t) = []"
| "regularFiles (Dir es) = regularFilesIn es"
| "regularFilesIn [] = []"
| "regularFilesIn (c # cs) = map ((#) (fst c)) (regularFiles (snd c)) @ regularFilesIn cs"

section \<open>Notions used in the results\<close>

text \<open>The calls of \<^verbatim>\<open>link\<close> made between two states of a pass.\<close>

definition newCalls :: "'fs lstate \<Rightarrow> 'fs lstate \<Rightarrow> link_call list" where
  "newCalls st st' = drop (length (trace st)) (trace st')"

text \<open>
  What a call of \<^verbatim>\<open>linkPackage\<close> or \<^verbatim>\<open>linkAll\<close> does to the state of its pass: it
  appends calls for new, different names, none of them in \<^verbatim>\<open>created\<close> or among the
  ancestors, each with at most one match in its manifest path and with the link file of
  its name, and \<^verbatim>\<open>created\<close> grows by these names.
\<close>

definition passStep :: "path \<Rightarrow> string list \<Rightarrow> 'fs lstate \<Rightarrow> 'fs lstate \<Rightarrow> bool" where
  "passStep toPath resolved st st' \<longleftrightarrow>
     (\<exists>new. trace st' = trace st @ new \<and>
            created st' = created st \<union> l_name ` set new \<and>
            distinct (map l_name new) \<and>
            l_name ` set new \<inter> (created st \<union> set resolved) = {} \<and>
            (\<forall>c \<in> set new. nodeModulesMatches (l_pkg c) \<le> 1 \<and>
                              l_file c = path_join toPath (l_name c)))"





text \<open>
  Two loaders that give the same answers: a later run in the same process, with more
  manifests in the cache, is one.
\<close>

definition sameAnswers :: "env \<Rightarrow> env \<Rightarrow> bool" where
  "sameAnswers e e' \<longleftrightarrow>
     requireResolve e' = requireResolve e \<and> existsSync e' = existsSync e \<and>
     (\<forall>p. requireValue e' p = requireValue e p)"

text \<open>
  The parts of \<open>cleanEntries\<close>: what becomes of one entry that is not a link, the entry
  it leaves on disk, and the error it raises.
\<close>

definition outcome :: "string \<times> node \<Rightarrow> string \<times> node option \<times> errno option" where
  "outcome c =
     (if isScopedPkgDir c
      then (case cleanEntries (readdir (snd c)) of (r, err) \<Rightarrow> (fst c, map_option Dir r, err))
      else (fst c, Some (snd c), None))"

definition kept :: "string \<times> node option \<times> errno option \<Rightarrow> (string \<times> node) list" where
  "kept x = (case x of (f, r, err) \<Rightarrow> (case r of None \<Rightarrow> [] | Some n \<Rightarrow> [(f, n)]))"

definition raised :: "string \<times> node option \<times> errno option \<Rightarrow> errno list" where
  "raised x = (case x of (f, r, err) \<Rightarrow> (case err of None \<Rightarrow> [] | Some e \<Rightarrow> [e]))"

text \<open>What the specification's steps leave of one entry.\<close>

definition survivor :: "string \<times> node \<Rightarrow> (string \<times> node) list" where
  "survivor c =
     (if isSymbolicLink (snd c) then []
      else if isDirectory (snd c) \<and> take 1 (fst c) = ''@''
      then (case spec_clean (readdir (snd c)) of
              None \<Rightarrow> []
            | Some r \<Rightarrow> [(fst c, Dir r)])
      else [c])"

text \<open>
  Two states of the tree: every path of \<open>d\<close> is a path of \<open>d'\<close>, a directory where it
  was one.  \<open>linked d f\<close>: a call of \<^verbatim>\<open>link\<close> for the file \<open>f\<close> finds it there.
\<close>

definition grows :: "node \<Rightarrow> node \<Rightarrow> bool" where
  "grows d d' \<longleftrightarrow>
     (\<forall>f n. lookup d f = Some n \<longrightarrow>
        (\<exists>n'. lookup d' f = Some n' \<and> isDirectory n' = isDirectory n))"

definition linked :: "node \<Rightarrow> path \<Rightarrow> bool" where
  "linked d f \<longleftrightarrow> lookup d f \<noteq> None \<and> (f = [] \<longrightarrow> isDirectory d)"

section \<open>Example layouts\<close>

text \<open>
  A resolver for a disk without export maps and without links: the first candidate
  directory that holds the manifest.
\<close>

definition plainResolve :: "(path \<times> manifest) list \<Rightarrow> string \<Rightarrow> path list \<Rightarrow> path option" where
  "plainResolve fs name paths =
     find (\<lambda>p. p \<in> set (map fst fs))
       (map (\<lambda>pth. normalize (pth @ split_sep name @ [''package.json''])) paths)"

definition diskEnv :: "(path \<times> manifest) list \<Rightarrow> env" where
  "diskEnv fs =
     \<lparr>requireResolve = plainResolve fs,
      existsSync = (\<lambda>p. p \<in> set (map fst fs)),
      files = fs, cache = []\<rparr>"

definition manifestOf :: "string list \<Rightarrow> manifest" where
  "manifestOf ds = \<lparr>dependencies = map (\<lambda>d. (d, ''*'')) ds, workspaces = []\<rparr>"



text \<open>
  A workspace: the root lists \<^verbatim>\<open>pkgA\<close> and \<^verbatim>\<open>pkgB\<close>, \<^verbatim>\<open>pkgA\<close> depends on \<^verbatim>\<open>pkgB\<close> and
  \<^verbatim>\<open>lodash\<close>.  The package manager has linked \<^verbatim>\<open>/ws/node_modules/pkgB\<close> to \<^verbatim>\<open>/ws/pkgB\<close>,
  so \<^verbatim>\<open>require.resolve\<close> answers the real path \<^verbatim>\<open>/ws/pkgB/package.json\<close>.
\<close>

definition workspaceFiles :: "(path \<times> manifest) list" where
  "workspaceFiles =
     [([''ws'', ''package.json''], \<lparr>dependencies = [], workspaces = [''pkgA'', ''pkgB'']\<rparr>),
      ([''ws'', ''pkgA'', ''package.json''], manifestOf [''pkgB'', ''lodash'']),
      ([''ws'', ''pkgB'', ''package.json''], manifestOf []),
      ([''ws'', ''node_modules'', ''lodash'', ''package.json''], manifestOf [])]"

definition workspaceEnv :: env where
  "workspaceEnv =
     (diskEnv workspaceFiles)
       \<lparr>requireResolve := (\<lambda>name paths.
          if name = ''pkgB'' then Some [''ws'', ''pkgB'', ''package.json'']
          else plainResolve workspaceFiles name paths)\<rparr>"

text \<open>
  A nested package: \<^verbatim>\<open>A\<close> depends on \<^verbatim>\<open>X\<close>, installed below \<^verbatim>\<open>A\<close>, and \<^verbatim>\<open>X\<close> on the
  hoisted \<^verbatim>\<open>Y\<close>.
\<close>

definition nestedEnv :: env where
  "nestedEnv = diskEnv
     [([''ws'', ''node_modules'', ''A'', ''package.json''], manifestOf [''X'']),
      ([''ws'', ''node_modules'', ''A'', ''node_modules'', ''X'', ''package.json''],
       manifestOf [''Y'']),
      ([''ws'', ''node_modules'', ''Y'', ''package.json''], manifestOf [])]"



text \<open>
  The states these layouts lead to when the packages \<open>names\<close> are linked, in this
  order, below \<^verbatim>\<open>/ws/app/node_modules\<close> on an empty disk.
\<close>

definition hoistedCall :: "string \<Rightarrow> link_call" where
  "hoistedCall name =
     \<lparr>l_name = name,
      l_pkg = [''ws'', ''node_modules'', name, ''package.json''],
      l_target = [''..'', ''..'', ''node_modules'', name],
      l_file = [''ws'', ''app'', ''node_modules'', name]\<rparr>"

definition linkedDisk :: "string list \<Rightarrow> node" where
  "linkedDisk names =
     Dir [(''ws'', Dir [(''app'', Dir [(''node_modules'',
       Dir (map (\<lambda>name. (name, Symlink [''..'', ''..'', ''node_modules'', name])) names))])])]"




definition nestedBranch :: "node lstate" where
  "nestedBranch = \<lparr>created = {''A''}, trace = [], disk = Dir []\<rparr>"

definition nestedBranchEnd :: "node lstate" where
  "nestedBranchEnd =
     \<lparr>created = {''A'', ''Y''}, trace = [hoistedCall ''Y''], disk = linkedDisk [''Y'']\<rparr>"






text \<open>
  Directories to clean: one with a link, a directory of binaries, a scope that holds
  only a link, a scope that holds an installed package, and a file; and one with
  nothing but links.
\<close>

definition typesDir :: "string \<times> node" where
  "typesDir = (''@types'', Dir [(''node'', Dir [(''index.d.ts'', File)])])"

definition sampleModules :: "(string \<times> node) list" where
  "sampleModules =
     [(''lodash'', Symlink [''..'', ''..'', ''node_modules'', ''lodash'']),
      (''.bin'', Dir [(''tool'', File)]),
      (''@scope'', Dir [(''pkg'', Symlink [''..'', ''..'', ''..'', ''node_modules'', ''@scope'', ''pkg''])]),
      typesDir,
      (''notes.txt'', File)]"


section \<open>Workspace selection: results\<close>

lemma pushRelevant_filter:
  "pushRelevant deps ws i acc = acc @ filter (truthyProperty deps) (drop i ws)"
proof (induction deps ws i acc rule: pushRelevant.induct)
  case (1 deps ws i acc)
  show ?case
  proof (cases "i < length ws")
    case True
    then have d: "drop i ws = ws ! i # drop (Suc i) ws"
      by (simp add: Cons_nth_drop_Suc)
    show ?thesis
      using True "1.IH" by (subst pushRelevant.simps) (simp add: d)
  next
    case False
    then show ?thesis by (subst pushRelevant.simps) simp
  qed
qed

text \<open>
  C4, as amended.  The selection returns, in their order, exactly the entries \<open>w\<close> of the
  root manifest's workspaces list for which the lookup \<^verbatim>\<open>dependencies[w]\<close> on the target
  manifest is truthy; the whole entry is the key, not its final path component.
\<close>

theorem relevantWorkspaces_filter:
  "relevantWorkspaces target root =
     filter (truthyProperty (dependencies target)) (workspaces root)"
  by (simp add: relevantWorkspaces_def pushRelevant_filter)

text \<open>
  C4 as stated fails: for the workspace entry \<^verbatim>\<open>packages/foo\<close> and the dependency
  \<^verbatim>\<open>foo\<close>, the final component names a key, and the entry is not selected.
\<close>

theorem relevantWorkspaces_counterexample:
  "relevantWorkspaces
     \<lparr>dependencies = [(''foo'', ''*'')], workspaces = []\<rparr>
     \<lparr>dependencies = [], workspaces = [''packages/foo'']\<rparr>
   \<noteq> spec_selectedWorkspaces
     \<lparr>dependencies = [(''foo'', ''*'')], workspaces = []\<rparr>
     \<lparr>dependencies = [], workspaces = [''packages/foo'']\<rparr>"
  by (simp add: relevantWorkspaces_def pushRelevant_filter spec_selectedWorkspaces_def
      truthyProperty_def objectPrototypeKeys_def finalComponent_def)

section \<open>The module loader: results\<close>

lemma requireValue_after:
  "requireValue (snd (require_json e p)) q = requireValue e q"
  by (auto simp: requireValue_def require_json_def split: option.splits)





section \<open>Setup: results\<close>

text \<open>
  The second and third read of a manifest in \<^verbatim>\<open>initialise\<close> return what the first one
  returned, so both arrays are functions of the loader at the start.
\<close>

lemma getWorkspaceDependencies_value:
  "fst (getWorkspaceDependencies cfg e) =
     (case requireValue e (path_join (s_path cfg) ''package.json'') of
        Inl err \<Rightarrow> Inl err
      | Inr target \<Rightarrow>
          (case requireValue e (path_join (workspacePath cfg) ''package.json'') of
             Inl err \<Rightarrow> Inl err
           | Inr root \<Rightarrow> Inr (relevantWorkspaces target root)))"
proof -
  let ?tp = "path_join (s_path cfg) ''package.json''"
  let ?rp = "path_join (workspacePath cfg) ''package.json''"
  obtain v e1 where r1: "require_json e ?tp = (v, e1)"
    by (cases "require_json e ?tp")
  obtain w e2 where r2: "require_json e1 ?rp = (w, e2)"
    by (cases "require_json e1 ?rp")
  have v: "requireValue e ?tp = v"
    using r1 by (simp add: requireValue_def)
  have "e1 = snd (require_json e ?tp)"
    using r1 by simp
  then have w: "requireValue e ?rp = w"
    using r2 requireValue_after[of e ?tp ?rp] by (simp add: requireValue_def)
  show ?thesis
    unfolding v w getWorkspaceDependencies_def r1
    by (cases v; cases w) (simp_all add: r2)
qed

lemma workspacesToLink_value:
  "fst (workspacesToLink cfg e) =
     (case requireValue e (path_join (s_path cfg) ''package.json'') of
        Inl err \<Rightarrow> Inl err
      | Inr target \<Rightarrow>
          (case requireValue e (path_join (workspacePath cfg) ''package.json'') of
             Inl err \<Rightarrow> Inl err
           | Inr root \<Rightarrow>
               Inr (pushRelevant (dependencies target) (workspaces root) 0
                      (relevantWorkspaces target root))))"
proof -
  let ?tp = "path_join (s_path cfg) ''package.json''"
  let ?rp = "path_join (workspacePath cfg) ''package.json''"
  obtain v e1 where r1: "require_json e ?tp = (v, e1)"
    by (cases "require_json e ?tp")
  obtain w e2 where r2: "require_json e1 ?rp = (w, e2)"
    by (cases "require_json e1 ?rp")
  obtain x e3 where r3: "getWorkspaceDependencies cfg e2 = (x, e3)"
    by (cases "getWorkspaceDependencies cfg e2")
  have v: "requireValue e ?tp = v"
    using r1 by (simp add: requireValue_def)
  have e1: "e1 = snd (require_json e ?tp)"
    using r1 by simp
  have w: "requireValue e ?rp = w"
    using r2 requireValue_after[of e ?tp ?rp] by (simp add: requireValue_def e1)
  have e2: "e2 = snd (require_json e1 ?rp)"
    using r2 by simp
  have same: "requireValue e2 q = requireValue e q" for q
    by (simp add: e2 e1 requireValue_after)
  have x: "x = (case v of Inl err \<Rightarrow> Inl err
                | Inr target \<Rightarrow> (case w of Inl err \<Rightarrow> Inl err
                                 | Inr root \<Rightarrow> Inr (relevantWorkspaces target root)))"
  proof -
    have "fst (getWorkspaceDependencies cfg e2) =
            (case v of Inl err \<Rightarrow> Inl err
             | Inr target \<Rightarrow> (case w of Inl err \<Rightarrow> Inl err
                              | Inr root \<Rightarrow> Inr (relevantWorkspaces target root)))"
      unfolding getWorkspaceDependencies_value same v w by (rule refl)
    then show ?thesis using r3 by simp
  qed
  show ?thesis
    unfolding v w workspacesToLink_def r1
    by (cases v; cases w) (simp_all add: r2 r3 x)
qed

text \<open>
  The array of \<^verbatim>\<open>initialise\<close> holds every selected workspace twice: once from
  \<^verbatim>\<open>getWorkspaceDependencies()\<close> and once from the loop that follows.
\<close>

lemma workspacesToLink_twice:
  assumes "fst (workspacesToLink cfg e) = Inr ws"
  shows "\<exists>sel. fst (getWorkspaceDependencies cfg e) = Inr sel \<and> ws = sel @ sel"
  using assms
  by (auto simp: workspacesToLink_value getWorkspaceDependencies_value pushRelevant_filter
      relevantWorkspaces_def split: sum.splits)

text \<open>
  C3.  Setup is to run one pass for the target and one for each selected workspace.
  For the workspace above the selection is \<^verbatim>\<open>pkgB\<close>, but the array of \<^verbatim>\<open>initialise\<close>
  holds it twice, and the passes run for \<^verbatim>\<open>/ws/pkgB\<close>, \<^verbatim>\<open>/ws/pkgB\<close> and \<^verbatim>\<open>/ws/pkgA\<close>.
\<close>

theorem initialise_visits_workspace_twice:
  "fst (getWorkspaceDependencies (mkSettings [''ws'', ''pkgA'']) workspaceEnv) = Inr [''pkgB''] \<and>
   fst (workspacesToLink (mkSettings [''ws'', ''pkgA'']) workspaceEnv) = Inr [''pkgB'', ''pkgB''] \<and>
   linkageRoots (mkSettings [''ws'', ''pkgA'']) [''pkgB'', ''pkgB''] =
     [[''ws'', ''pkgB''], [''ws'', ''pkgB''], [''ws'', ''pkgA'']]"
  by code_simp

section \<open>The link builder: results\<close>

text \<open>Every call of \<^verbatim>\<open>linkPackage\<close> and \<^verbatim>\<open>linkAll\<close> that succeeds is a step of its pass.\<close>

lemma passStep_refl: "passStep toPath resolved st st"
  by (simp add: passStep_def)

lemma passStep_trans:
  assumes "passStep toPath r1 st st1" and "passStep toPath r2 st1 st2" and "set r1 \<subseteq> set r2"
  shows "passStep toPath r1 st st2"
proof -
  from assms(1) obtain n1 where n1: "trace st1 = trace st @ n1"
      "created st1 = created st \<union> l_name ` set n1" "distinct (map l_name n1)"
      "l_name ` set n1 \<inter> (created st \<union> set r1) = {}"
      "\<forall>c \<in> set n1. nodeModulesMatches (l_pkg c) \<le> 1 \<and> l_file c = path_join toPath (l_name c)"
    unfolding passStep_def by blast
  from assms(2) obtain n2 where n2: "trace st2 = trace st1 @ n2"
      "created st2 = created st1 \<union> l_name ` set n2" "distinct (map l_name n2)"
      "l_name ` set n2 \<inter> (created st1 \<union> set r2) = {}"
      "\<forall>c \<in> set n2. nodeModulesMatches (l_pkg c) \<le> 1 \<and> l_file c = path_join toPath (l_name c)"
    unfolding passStep_def by blast
  have "trace st2 = trace st @ (n1 @ n2)" using n1(1) n2(1) by simp
  moreover have "created st2 = created st \<union> l_name ` set (n1 @ n2)"
    using n1(2) n2(2) by auto
  moreover have "distinct (map l_name (n1 @ n2))"
    using n1(2,3) n2(3,4) by auto
  moreover have "l_name ` set (n1 @ n2) \<inter> (created st \<union> set r1) = {}"
    using n1(2,4) n2(4) assms(3) by auto
  moreover have "\<forall>c \<in> set (n1 @ n2). nodeModulesMatches (l_pkg c) \<le> 1 \<and>
      l_file c = path_join toPath (l_name c)"
    using n1(5) n2(5) by auto
  ultimately show ?thesis unfolding passStep_def by blast
qed

lemma createLink_passStep:
  assumes "createLink api name pkg toPath st = Inr st1" and "name \<notin> set resolved"
  shows "passStep toPath resolved st st1"
proof (cases "nodeModulesMatches pkg \<le> 1 \<and> name \<notin> created st")
  case True
  with assms(1) obtain d where
    st1: "st1 = \<lparr>created = insert name (created st),
                 trace = trace st @
                   [\<lparr>l_name = name, l_pkg = pkg,
                     l_target = path_relative (path_join_dirname toPath name) (path_dirname pkg),
                     l_file = path_join toPath name\<rparr>],
                 disk = d\<rparr>"
    by (auto simp: createLink_def split: sum.splits)
  show ?thesis
    unfolding passStep_def
    by (rule exI[of _ "[\<lparr>l_name = name, l_pkg = pkg,
                     l_target = path_relative (path_join_dirname toPath name) (path_dirname pkg),
                     l_file = path_join toPath name\<rparr>]"])
      (use True assms(2) in \<open>simp add: st1\<close>)
next
  case False
  with assms(1) have "st1 = st" by (auto simp: createLink_def)
  then show ?thesis by (simp add: passStep_refl)
qed

lemma linkPackage_passStep:
  "linkPackage api e name fromPath toPath resolved st = Inr st' \<Longrightarrow>
     passStep toPath resolved st st'"
  and linkAll_passStep:
  "linkAll api e deps fromPath toPath resolved st = Inr st' \<Longrightarrow>
     passStep toPath resolved st st'"
proof (induction api e name fromPath toPath resolved st and api e deps fromPath toPath resolved st
    arbitrary: st' and st' rule: linkPackage_linkAll.induct)
  case (1 api e name fromPath toPath resolved st)
  show ?case
  proof (cases "name \<in> set resolved")
    case True
    with "1.prems" show ?thesis by (simp add: linkPackage.simps passStep_refl)
  next
    case False
    with "1.prems" obtain pkg st1 m where
      r: "resolvePkg e name (getNodeModulePaths fromPath) = Some pkg"
      and c: "createLink api name pkg toPath st = Inr st1"
      and q: "requireValue e pkg = Inr m"
      and l: "linkAll api e (map fst (dependencies m)) (path_dirname pkg) toPath
                (resolved @ [name]) st1 = Inr st'"
      by (auto simp: linkPackage.simps split: option.splits sum.splits)
    have "passStep toPath resolved st st1"
      using c False by (rule createLink_passStep)
    moreover have "passStep toPath (resolved @ [name]) st1 st'"
      using "1.IH"[OF False r c q l] .
    ultimately show ?thesis
      by (rule passStep_trans) auto
  qed
next
  case (2 api e fromPath toPath resolved st)
  then show ?case by (simp add: passStep_refl)
next
  case (3 api e dep deps fromPath toPath resolved st)
  from "3.prems" obtain st1 where
    a: "linkPackage api e dep fromPath toPath resolved st = Inr st1"
    and b: "linkAll api e deps fromPath toPath resolved st1 = Inr st'"
    by (auto split: sum.splits)
  show ?case
    using "3.IH"(1)[OF a] "3.IH"(2)[OF a b] by (rule passStep_trans) simp
qed


lemma passStep_newCalls:
  assumes "passStep toPath resolved st st'"
  shows "trace st' = trace st @ newCalls st st'"
    and "created st' = created st \<union> l_name ` set (newCalls st st')"
    and "distinct (map l_name (newCalls st st'))"
    and "l_name ` set (newCalls st st') \<inter> (created st \<union> set resolved) = {}"
    and "\<forall>c \<in> set (newCalls st st'). nodeModulesMatches (l_pkg c) \<le> 1 \<and>
           l_file c = path_join toPath (l_name c)"
proof -
  from assms obtain new where new: "trace st' = trace st @ new"
      "created st' = created st \<union> l_name ` set new" "distinct (map l_name new)"
      "l_name ` set new \<inter> (created st \<union> set resolved) = {}"
      "\<forall>c \<in> set new. nodeModulesMatches (l_pkg c) \<le> 1 \<and>
         l_file c = path_join toPath (l_name c)"
    unfolding passStep_def by blast
  have eq: "newCalls st st' = new"
    by (simp add: newCalls_def new(1))
  show "trace st' = trace st @ newCalls st st'"
    and "created st' = created st \<union> l_name ` set (newCalls st st')"
    and "distinct (map l_name (newCalls st st'))"
    and "l_name ` set (newCalls st st') \<inter> (created st \<union> set resolved) = {}"
    and "\<forall>c \<in> set (newCalls st st'). nodeModulesMatches (l_pkg c) \<le> 1 \<and>
           l_file c = path_join toPath (l_name c)"
    using new by (simp_all only: eq)
qed


lemma matchCount_node_modules: "matchCount ''node_modules'' = 1"
  by code_simp

lemma segments_le_matches: "count_list pkg ''node_modules'' \<le> nodeModulesMatches pkg"
  by (induction pkg) (auto simp: nodeModulesMatches_def matchCount_node_modules)











text \<open>
  C5.  Every package that \<^verbatim>\<open>linkPackage\<close> links has at most one \<^verbatim>\<open>node_modules\<close> segment
  in the path of its resolved manifest.  A package resolved to a path with two or more
  such segments is not linked by its call, which goes on with the package's own
  dependencies in the unchanged state.
\<close>

theorem depth_policy:
  "(linkPackage api e name fromPath toPath resolved st = Inr st' \<longrightarrow>
      (\<forall>c \<in> set (newCalls st st'). count_list (l_pkg c) ''node_modules'' \<le> 1)) \<and>
   (name \<notin> set resolved \<longrightarrow>
    resolvePkg e name (getNodeModulePaths fromPath) = Some pkg \<longrightarrow>
    2 \<le> count_list pkg ''node_modules'' \<longrightarrow>
      linkPackage api e name fromPath toPath resolved st =
        (case requireValue e pkg of
           Inl err \<Rightarrow> Inl err
         | Inr m \<Rightarrow> linkAll api e (map fst (dependencies m)) (path_dirname pkg) toPath
                     (resolved @ [name]) st) \<and>
      (linkPackage api e name fromPath toPath resolved st = Inr st' \<longrightarrow>
         filter (\<lambda>c. l_name c = name) (newCalls st st') = []))"
proof (intro conjI impI)
  assume run: "linkPackage api e name fromPath toPath resolved st = Inr st'"
  have step: "passStep toPath resolved st st'"
    using run by (rule linkPackage_passStep)
  show "\<forall>c \<in> set (newCalls st st'). count_list (l_pkg c) ''node_modules'' \<le> 1"
  proof
    fix c assume "c \<in> set (newCalls st st')"
    with passStep_newCalls(5)[OF step] have "nodeModulesMatches (l_pkg c) \<le> 1" by simp
    with segments_le_matches[of "l_pkg c"] show "count_list (l_pkg c) ''node_modules'' \<le> 1"
      by simp
  qed
next
  assume fresh: "name \<notin> set resolved"
    and res: "resolvePkg e name (getNodeModulePaths fromPath) = Some pkg"
    and deep: "2 \<le> count_list pkg ''node_modules''"
  have "\<not> nodeModulesMatches pkg \<le> 1"
    using deep segments_le_matches[of pkg] by simp
  then have skip: "createLink api name pkg toPath st = Inr st"
    by (simp add: createLink_def)
  show eq: "linkPackage api e name fromPath toPath resolved st =
        (case requireValue e pkg of
           Inl err \<Rightarrow> Inl err
         | Inr m \<Rightarrow> linkAll api e (map fst (dependencies m)) (path_dirname pkg) toPath
                     (resolved @ [name]) st)"
    using fresh res skip by (simp add: linkPackage.simps)
  assume run: "linkPackage api e name fromPath toPath resolved st = Inr st'"
  with eq obtain m where "requireValue e pkg = Inr m"
    and "linkAll api e (map fst (dependencies m)) (path_dirname pkg) toPath
           (resolved @ [name]) st = Inr st'"
    by (auto split: sum.splits)
  then have "passStep toPath (resolved @ [name]) st st'"
    by (auto intro: linkAll_passStep)
  from passStep_newCalls(4)[OF this]
  show "filter (\<lambda>c. l_name c = name) (newCalls st st') = []"
    by (auto simp: filter_empty_conv)
qed

lemma nested_resolve:
  "resolvePkg nestedEnv ''X'' (getNodeModulePaths [''ws'', ''node_modules'', ''A'']) =
     Some [''ws'', ''node_modules'', ''A'', ''node_modules'', ''X'', ''package.json'']"
  by code_simp

lemma nested_run:
  "linkPackage treeApi nestedEnv ''X'' [''ws'', ''node_modules'', ''A'']
     [''ws'', ''app'', ''node_modules''] [''A''] nestedBranch = Inr nestedBranchEnd"
  by code_simp

theorem depth_policy_witness:
  "list_all (\<lambda>c. count_list (l_pkg c) ''node_modules'' \<le> 1)
     (newCalls nestedBranch nestedBranchEnd) \<and>
   filter (\<lambda>c. l_name c = ''X'') (newCalls nestedBranch nestedBranchEnd) = []"
proof -
  have "''X'' \<notin> set [''A'']" by simp
  moreover have "2 \<le> count_list
      [''ws'', ''node_modules'', ''A'', ''node_modules'', ''X'', ''package.json''] ''node_modules''"
    by simp
  ultimately show ?thesis
    using depth_policy[of treeApi nestedEnv "''X''" "[''ws'', ''node_modules'', ''A'']"
        "[''ws'', ''app'', ''node_modules'']" "[''A'']" nestedBranch nestedBranchEnd
        "[''ws'', ''node_modules'', ''A'', ''node_modules'', ''X'', ''package.json'']"]
      nested_resolve nested_run
    unfolding list_all_iff by blast
qed






section \<open>The tree file system: results\<close>

text \<open>
  \<open>tree_ensureDir\<close> and \<open>tree_symlink\<close> only add to the tree: what was there stays, and
  stays a directory if it was one.
\<close>

lemma grows_refl: "grows d d"
  by (simp add: grows_def)

lemma grows_trans: "grows a b \<Longrightarrow> grows b c \<Longrightarrow> grows a c"
  unfolding grows_def by (metis)

lemma grows_linked: "grows d d' \<Longrightarrow> linked d f \<Longrightarrow> linked d' f"
  unfolding grows_def linked_def
  by (metis lookup.simps(1) option.distinct(1) option.exhaust option.inject)

lemma map_of_replaceEntry:
  "map_of (replaceEntry x c es) y =
     (if y = x \<and> map_of es x \<noteq> None then Some c else map_of es y)"
  by (induction es) auto

lemma grows_DirI:
  assumes "\<And>y c ys n. map_of es y = Some c \<Longrightarrow> lookup c ys = Some n \<Longrightarrow>
             \<exists>c' n'. map_of es' y = Some c' \<and> lookup c' ys = Some n' \<and>
                     isDirectory n' = isDirectory n"
  shows "grows (Dir es) (Dir es')"
  unfolding grows_def
proof (intro allI impI)
  fix f n assume l: "lookup (Dir es) f = Some n"
  show "\<exists>n'. lookup (Dir es') f = Some n' \<and> isDirectory n' = isDirectory n"
  proof (cases f)
    case Nil
    with l show ?thesis by (auto simp: isDirectory_def)
  next
    case (Cons y ys)
    with l obtain c where "map_of es y = Some c" "lookup c ys = Some n"
      by (auto split: option.splits)
    from assms[OF this] show ?thesis using Cons by auto
  qed
qed

lemma grows_replace:
  assumes "map_of es x = Some c" and "grows c c'"
  shows "grows (Dir es) (Dir (replaceEntry x c' es))"
proof (rule grows_DirI)
  fix y c0 ys n assume a: "map_of es y = Some c0" and b: "lookup c0 ys = Some n"
  show "\<exists>c1 n'. map_of (replaceEntry x c' es) y = Some c1 \<and> lookup c1 ys = Some n' \<and>
                 isDirectory n' = isDirectory n"
  proof (cases "y = x")
    case True
    with a assms(1) have "c0 = c" by simp
    with b assms(2) obtain n' where "lookup c' ys = Some n'" "isDirectory n' = isDirectory n"
      unfolding grows_def by blast
    then show ?thesis using True assms(1) by (simp add: map_of_replaceEntry)
  next
    case False
    then show ?thesis using a b by (simp add: map_of_replaceEntry)
  qed
qed

lemma grows_append:
  assumes "map_of es x = None"
  shows "grows (Dir es) (Dir (es @ [(x, c)]))"
proof (rule grows_DirI)
  fix y c0 ys n assume a: "map_of es y = Some c0" and b: "lookup c0 ys = Some n"
  then show "\<exists>c1 n'. map_of (es @ [(x, c)]) y = Some c1 \<and> lookup c1 ys = Some n' \<and>
                 isDirectory n' = isDirectory n"
    by (auto simp: map_add_def)
qed

lemma tree_ensureDir_grows:
  "tree_ensureDir p d = Inr d' \<Longrightarrow> grows d d'"
proof (induction p d arbitrary: d' rule: tree_ensureDir.induct)
  case (1 es)
  then show ?case by (auto simp: grows_refl)
next
  case (3 x xs es)
  show ?case
  proof (cases "map_of es x")
    case None
    with "3.prems" show ?thesis by (auto intro: grows_append)
  next
    case (Some c)
    with "3.prems" obtain c' where c': "tree_ensureDir xs c = Inr c'"
      and d': "d' = Dir (replaceEntry x c' es)"
      by (auto split: sum.splits)
    from "3.IH"[OF Some c'] have "grows c c'" .
    with Some show ?thesis unfolding d' by (rule grows_replace)
  qed
qed simp_all

lemma tree_symlink_grows:
  "tree_symlink t f d = Inr d' \<Longrightarrow> grows d d' \<and> lookup d' f \<noteq> None"
proof (induction t f d arbitrary: d' rule: tree_symlink.induct)
  case (2 target x es)
  then have n: "map_of es x = None" and d': "d' = Dir (es @ [(x, Symlink target)])"
    by (auto split: option.splits)
  show ?case
    unfolding d' using n by (auto intro: grows_append simp: map_add_def)
next
  case (3 target x y ys es)
  from "3.prems" obtain c c' where c: "map_of es x = Some c"
    and c': "tree_symlink target (y # ys) c = Inr c'"
    and d': "d' = Dir (replaceEntry x c' es)"
    by (auto split: option.splits sum.splits)
  from "3.IH"[OF c c'] have g: "grows c c'" and l: "lookup c' (y # ys) \<noteq> None"
    by auto
  have "grows (Dir es) d'"
    unfolding d' using c g by (rule grows_replace)
  moreover have "lookup d' (x # y # ys) \<noteq> None"
    unfolding d' using c l by (simp add: map_of_replaceEntry del: lookup.simps(2,3))
      (simp add: map_of_replaceEntry)
  ultimately show ?case by simp
qed simp_all

text \<open>\<open>tree_symlink\<close> answers \<^verbatim>\<open>EEXIST\<close> exactly for a path that is there.\<close>

lemma tree_symlink_EEXIST:
  "tree_symlink t f d = Inl EEXIST \<Longrightarrow> lookup d f \<noteq> None"
  by (induction t f d rule: tree_symlink.induct) (auto split: option.splits sum.splits)

lemma tree_symlink_present:
  "lookup d f \<noteq> None \<Longrightarrow> tree_symlink t f d = Inl EEXIST"
  by (induction t f d rule: tree_symlink.induct) (auto split: option.splits sum.splits)

lemma tree_ensureDir_present:
  "lookup d (p @ [x]) \<noteq> None \<Longrightarrow> tree_ensureDir p d = Inr d"
proof (induction p d rule: tree_ensureDir.induct)
  case (3 y ys es)
  then obtain c where c: "map_of es y = Some c" and l: "lookup c (ys @ [x]) \<noteq> None"
    by (auto split: option.splits)
  from "3.IH"[OF c l] have "tree_ensureDir ys c = Inr c" .
  moreover have "replaceEntry y c es = es"
    using c by (induction es) (auto split: if_splits)
  ultimately show ?case using c by simp
qed (auto split: option.splits)

lemma grows_root:
  assumes "grows d d'"
  shows "isDirectory d' = isDirectory d"
proof -
  have "lookup d [] = Some d" by simp
  with assms obtain n' where "lookup d' [] = Some n'" and "isDirectory n' = isDirectory d"
    unfolding grows_def by blast
  then show ?thesis by simp
qed

text \<open>
  After a call of \<^verbatim>\<open>link\<close> that succeeded the file is there, and on a disk where the
  file is there \<^verbatim>\<open>link\<close> succeeds and changes nothing.
\<close>

lemma link_tree_grows:
  assumes "link treeApi t f d = Inr d'"
  shows "grows d d'" and "linked d' f"
proof -
  from assms obtain d1 where e: "tree_ensureDir (path_dirname f) d = Inr d1"
    and s: "tree_symlink t f d1 = Inr d' \<or> (tree_symlink t f d1 = Inl EEXIST \<and> d' = d1)"
    by (auto simp: link_def treeApi_def split: sum.splits if_splits)
  have g1: "grows d d1" using e by (rule tree_ensureDir_grows)
  from s have g2: "grows d1 d'" and p: "lookup d' f \<noteq> None"
    using tree_symlink_grows[of t f d1 d'] tree_symlink_EEXIST[of t f d1]
    by (auto simp: grows_refl)
  show "grows d d'" using g1 g2 by (rule grows_trans)
  have "isDirectory d'" if "f = []"
  proof -
    from e that have "isDirectory d1"
      by (cases d1; cases d) (auto simp: path_dirname_def isDirectory_def)
    with grows_root[OF g2] show ?thesis by simp
  qed
  with p show "linked d' f" by (simp add: linked_def)
qed

lemma link_tree_noop:
  assumes "linked d f"
  shows "link treeApi t f d = Inr d"
proof -
  have e: "tree_ensureDir (path_dirname f) d = Inr d"
  proof (cases f rule: rev_cases)
    case Nil
    with assms show ?thesis
      by (cases d) (auto simp: linked_def path_dirname_def isDirectory_def)
  next
    case (snoc p x)
    with assms show ?thesis
      by (auto simp: linked_def path_dirname_def intro: tree_ensureDir_present)
  qed
  have "tree_symlink t f d = Inl EEXIST"
    using assms by (auto simp: linked_def intro: tree_symlink_present)
  with e show ?thesis by (simp add: link_def treeApi_def)
qed

lemma createLink_grows:
  "createLink treeApi name pkg toPath st = Inr st1 \<Longrightarrow> grows (disk st) (disk st1)"
  by (auto simp: createLink_def grows_refl split: if_splits sum.splits dest: link_tree_grows(1))

text \<open>
  A run that has succeeded succeeds again on every disk that holds what it left, makes
  the same calls of \<^verbatim>\<open>link\<close>, and leaves that disk as it is.
\<close>

lemma createLink_replay:
  assumes "createLink treeApi name pkg toPath st = Inr st1" and "grows (disk st1) t"
  shows "createLink treeApi name pkg toPath (st\<lparr>disk := t\<rparr>) = Inr (st1\<lparr>disk := t\<rparr>)"
proof (cases "nodeModulesMatches pkg \<le> 1 \<and> name \<notin> created st")
  case True
  let ?target = "path_relative (path_join_dirname toPath name) (path_dirname pkg)"
  from True assms(1) obtain d where l: "link treeApi ?target (path_join toPath name) (disk st) = Inr d"
    and st1: "st1 = \<lparr>created = insert name (created st),
                 trace = trace st @
                   [\<lparr>l_name = name, l_pkg = pkg, l_target = ?target,
                     l_file = path_join toPath name\<rparr>],
                 disk = d\<rparr>"
    by (auto simp: createLink_def split: sum.splits)
  have "linked d (path_join toPath name)" using l by (rule link_tree_grows(2))
  moreover have "grows d t" using assms(2) by (simp add: st1)
  ultimately have "linked t (path_join toPath name)" by (auto intro: grows_linked)
  then have "link treeApi ?target (path_join toPath name) t = Inr t"
    by (rule link_tree_noop)
  then show ?thesis
    using True by (simp add: createLink_def st1)
next
  case False
  with assms(1) have "st1 = st" by (auto simp: createLink_def)
  with False show ?thesis by (auto simp: createLink_def)
qed

lemma linkPackage_grows:
  "linkPackage treeApi e name fromPath toPath resolved st = Inr st' \<Longrightarrow>
     grows (disk st) (disk st')"
  and linkAll_grows:
  "linkAll treeApi e deps fromPath toPath resolved st = Inr st' \<Longrightarrow>
     grows (disk st) (disk st')"
proof (induction treeApi e name fromPath toPath resolved st
    and treeApi e deps fromPath toPath resolved st
    arbitrary: st' and st' rule: linkPackage_linkAll.induct)
  case (1 e name fromPath toPath resolved st)
  show ?case
  proof (cases "name \<in> set resolved")
    case True
    with "1.prems" show ?thesis by (simp add: linkPackage.simps grows_refl)
  next
    case False
    with "1.prems" obtain pkg st1 m where
      r: "resolvePkg e name (getNodeModulePaths fromPath) = Some pkg"
      and c: "createLink treeApi name pkg toPath st = Inr st1"
      and q: "requireValue e pkg = Inr m"
      and l: "linkAll treeApi e (map fst (dependencies m)) (path_dirname pkg) toPath
                (resolved @ [name]) st1 = Inr st'"
      by (auto simp: linkPackage.simps split: option.splits sum.splits)
    have "grows (disk st) (disk st1)" using c by (rule createLink_grows)
    moreover have "grows (disk st1) (disk st')"
      using "1.hyps"[OF False r c q l] .
    ultimately show ?thesis by (rule grows_trans)
  qed
next
  case (2 e fromPath toPath resolved st)
  then show ?case by (simp add: grows_refl)
next
  case (3 e dep deps fromPath toPath resolved st)
  from "3.prems" obtain st1 where
    a: "linkPackage treeApi e dep fromPath toPath resolved st = Inr st1"
    and b: "linkAll treeApi e deps fromPath toPath resolved st1 = Inr st'"
    by (auto split: sum.splits)
  show ?case
    using "3.hyps"(1)[OF a] "3.hyps"(2)[OF a b] by (rule grows_trans)
qed

lemma linkPackage_replay:
  "linkPackage treeApi e name fromPath toPath resolved st = Inr st' \<Longrightarrow>
     grows (disk st') t \<Longrightarrow>
     linkPackage treeApi e name fromPath toPath resolved (st\<lparr>disk := t\<rparr>) = Inr (st'\<lparr>disk := t\<rparr>)"
  and linkAll_replay:
  "linkAll treeApi e deps fromPath toPath resolved st = Inr st' \<Longrightarrow>
     grows (disk st') t \<Longrightarrow>
     linkAll treeApi e deps fromPath toPath resolved (st\<lparr>disk := t\<rparr>) = Inr (st'\<lparr>disk := t\<rparr>)"
proof (induction treeApi e name fromPath toPath resolved st
    and treeApi e deps fromPath toPath resolved st
    arbitrary: st' and st' rule: linkPackage_linkAll.induct)
  case (1 e name fromPath toPath resolved st)
  show ?case
  proof (cases "name \<in> set resolved")
    case True
    with "1.prems" show ?thesis by (auto simp: linkPackage.simps)
  next
    case False
    with "1.prems" obtain pkg st1 m where
      r: "resolvePkg e name (getNodeModulePaths fromPath) = Some pkg"
      and c: "createLink treeApi name pkg toPath st = Inr st1"
      and q: "requireValue e pkg = Inr m"
      and l: "linkAll treeApi e (map fst (dependencies m)) (path_dirname pkg) toPath
                (resolved @ [name]) st1 = Inr st'"
      by (auto simp: linkPackage.simps split: option.splits sum.splits)
    have "grows (disk st1) (disk st')" using l by (rule linkAll_grows)
    then have "grows (disk st1) t" using "1.prems"(2) by (rule grows_trans)
    with c have c': "createLink treeApi name pkg toPath (st\<lparr>disk := t\<rparr>) = Inr (st1\<lparr>disk := t\<rparr>)"
      by (rule createLink_replay)
    have "linkAll treeApi e (map fst (dependencies m)) (path_dirname pkg) toPath
            (resolved @ [name]) (st1\<lparr>disk := t\<rparr>) = Inr (st'\<lparr>disk := t\<rparr>)"
      using "1.hyps"[OF False r c q l "1.prems"(2)] .
    then show ?thesis
      using False r c' q by (simp add: linkPackage.simps)
  qed
next
  case (2 e fromPath toPath resolved st)
  then show ?case by auto
next
  case (3 e dep deps fromPath toPath resolved st)
  from "3.prems" obtain st1 where
    a: "linkPackage treeApi e dep fromPath toPath resolved st = Inr st1"
    and b: "linkAll treeApi e deps fromPath toPath resolved st1 = Inr st'"
    by (auto split: sum.splits)
  have "grows (disk st1) (disk st')" using b by (rule linkAll_grows)
  then have g: "grows (disk st1) t" using "3.prems"(2) by (rule grows_trans)
  show ?case
    using "3.hyps"(1)[OF a g] "3.hyps"(2)[OF a b "3.prems"(2)] by simp
qed






text \<open>A run depends on the loader only through its answers.\<close>

lemma sameAnswers_refl: "sameAnswers e e"
  by (simp add: sameAnswers_def)



lemma sameAnswers_resolvePkg:
  assumes "sameAnswers e e'"
  shows "resolvePkg e' name paths = resolvePkg e name paths"
proof -
  have "scanPaths e' name paths = scanPaths e name paths"
    using assms by (induction paths) (auto simp: sameAnswers_def)
  moreover have "requireResolve e' = requireResolve e"
    using assms by (simp add: sameAnswers_def)
  ultimately show ?thesis
    unfolding resolvePkg_def by (simp split: option.splits)
qed

lemma linkPackage_sameAnswers:
  "sameAnswers e e' \<Longrightarrow>
     linkPackage api e' name fromPath toPath resolved st =
     linkPackage api e name fromPath toPath resolved st"
  and linkAll_sameAnswers:
  "sameAnswers e e' \<Longrightarrow>
     linkAll api e' deps fromPath toPath resolved st =
     linkAll api e deps fromPath toPath resolved st"
proof (induction api e name fromPath toPath resolved st and api e deps fromPath toPath resolved st
    rule: linkPackage_linkAll.induct)
  case (1 api e name fromPath toPath resolved st)
  note same = "1.prems"
  show ?case
  proof (cases "name \<in> set resolved")
    case True
    then show ?thesis by (simp add: linkPackage.simps)
  next
    case False
    show ?thesis
    proof (cases "resolvePkg e name (getNodeModulePaths fromPath)")
      case None
      then show ?thesis
        using False by (simp add: linkPackage.simps sameAnswers_resolvePkg[OF same])
    next
      case (Some pkg)
      note r = this
      show ?thesis
      proof (cases "createLink api name pkg toPath st")
        case (Inl err)
        then show ?thesis
          using False r by (simp add: linkPackage.simps sameAnswers_resolvePkg[OF same])
      next
        case (Inr st1)
        note c = this
        have q: "requireValue e' pkg = requireValue e pkg"
          using same by (simp add: sameAnswers_def)
        show ?thesis
        proof (cases "requireValue e pkg")
          case (Inl err)
          then show ?thesis
            using False r c q by (simp add: linkPackage.simps sameAnswers_resolvePkg[OF same])
        next
          case (Inr m)
          from "1.IH"[OF False r c Inr same]
          show ?thesis
            using False r c q Inr
            by (simp add: linkPackage.simps sameAnswers_resolvePkg[OF same])
        qed
      qed
    qed
  qed
next
  case (2 api e fromPath toPath resolved st)
  then show ?case by simp
next
  case (3 api e dep deps fromPath toPath resolved st)
  show ?case
  proof (cases "linkPackage api e dep fromPath toPath resolved st")
    case (Inl err)
    then show ?thesis using "3.IH"(1)[OF "3.prems"] by simp
  next
    case (Inr st1)
    then show ?thesis
      using "3.IH"(1)[OF "3.prems"] "3.IH"(2)[OF Inr "3.prems"] by simp
  qed
qed
























section \<open>Cleaning: results\<close>

text \<open>\<open>cleanEntries\<close> in terms of what it does to each entry.\<close>

lemma cleanEntries_unfold:
  "cleanEntries listing =
     (let contents = filter (\<lambda>c. \<not> isSymbolicLink (snd c)) listing;
          remaining = concat (map (kept \<circ> outcome) contents);
          errors = concat (map (raised \<circ> outcome) contents)
      in if errors \<noteq> [] then (Some remaining, Some (hd errors))
         else if filter (\<lambda>c. \<not> isScopedPkgDir c) contents = []
         then (if remaining = [] then (None, None) else (Some remaining, Some ENOTEMPTY))
         else (Some remaining, None))"
proof -
  have k: "kept = (\<lambda>(f, r, err). case r of None \<Rightarrow> [] | Some n \<Rightarrow> [(f, n)])"
    by (auto simp: kept_def fun_eq_iff)
  have r: "raised = (\<lambda>(f, r, err). case err of None \<Rightarrow> [] | Some x \<Rightarrow> [x])"
    by (auto simp: raised_def fun_eq_iff)
  have o: "outcome = (\<lambda>c. if isScopedPkgDir c
                               then (case cleanEntries (readdir (snd c)) of
                                       (r, err) \<Rightarrow> (fst c, map_option Dir r, err))
                               else (fst c, Some (snd c), None))"
    by (auto simp: outcome_def fun_eq_iff)
  show ?thesis
    by (subst cleanEntries.simps) (simp only: k r o map_map[symmetric] Let_def)
qed


lemma cleanEntries_error_survives:
  "snd (cleanEntries listing) \<noteq> None \<Longrightarrow> fst (cleanEntries listing) \<noteq> None"
  by (subst (asm) cleanEntries_unfold, subst cleanEntries_unfold)
    (auto simp: Let_def split: if_splits)

lemma spec_clean_unfold:
  "spec_clean listing =
     (if concat (map survivor listing) = [] then None
      else Some (concat (map survivor listing)))"
proof -
  have s: "survivor = (\<lambda>c.
            if isSymbolicLink (snd c) then []
            else if isDirectory (snd c) \<and> take 1 (fst c) = ''@''
            then (case spec_clean (readdir (snd c)) of
                    None \<Rightarrow> []
                  | Some r \<Rightarrow> [(fst c, Dir r)])
            else [c])"
    by (auto simp: survivor_def fun_eq_iff)
  show ?thesis
    by (subst spec_clean.simps) (simp only: s Let_def)
qed

lemma concat_map_filter:
  "(\<And>x. x \<in> set xs \<Longrightarrow> \<not> P x \<Longrightarrow> g x = []) \<Longrightarrow>
     (\<And>x. x \<in> set xs \<Longrightarrow> P x \<Longrightarrow> f x = g x) \<Longrightarrow>
     concat (map f (filter P xs)) = concat (map g xs)"
  by (induction xs) auto

text \<open>
  What \<open>cleanEntries\<close> leaves on disk is what the steps of the specification leave.
  An error does not change this: a directory whose \<^verbatim>\<open>clean\<close> rejects is still there.
\<close>

lemma cleanEntries_spec: "fst (cleanEntries listing) = spec_clean listing"
proof (induction listing rule: cleanEntries.induct)
  case (1 listing)
  define contents where "contents = filter (\<lambda>c. \<not> isSymbolicLink (snd c)) listing"
  have IH: "fst (cleanEntries (readdir (snd c))) = spec_clean (readdir (snd c))"
    if "c \<in> set contents" "isScopedPkgDir c" for c
    using "1.IH"[OF contents_def that] .
  have keep: "(kept \<circ> outcome) c = survivor c" if "c \<in> set contents" for c
  proof (cases "isScopedPkgDir c")
    case True
    then show ?thesis
      using that IH[OF that True]
      by (auto simp: kept_def outcome_def survivor_def contents_def isScopedPkgDir_def
          split: prod.splits option.splits)
  next
    case False
    then show ?thesis
      using that
      by (auto simp: kept_def outcome_def survivor_def contents_def isScopedPkgDir_def)
  qed
  have remaining: "concat (map (kept \<circ> outcome) contents) = concat (map survivor listing)"
    unfolding contents_def
  proof (rule concat_map_filter)
    fix c assume "c \<in> set listing" and "\<not> \<not> isSymbolicLink (snd c)"
    then show "survivor c = []" by (simp add: survivor_def)
  next
    fix c assume "c \<in> set listing" and "\<not> isSymbolicLink (snd c)"
    then show "(kept \<circ> outcome) c = survivor c"
      using keep[of c] by (simp add: contents_def)
  qed
  have err: "concat (map (kept \<circ> outcome) contents) \<noteq> []"
    if "concat (map (raised \<circ> outcome) contents) \<noteq> []"
  proof -
    from that obtain c where c: "c \<in> set contents" and r: "raised (outcome c) \<noteq> []"
      by auto
    from r have sc: "isScopedPkgDir c" and e: "snd (cleanEntries (readdir (snd c))) \<noteq> None"
      by (auto simp: raised_def outcome_def split: if_splits prod.splits option.splits)
    from cleanEntries_error_survives[OF e] have "kept (outcome c) \<noteq> []"
      using sc by (auto simp: kept_def outcome_def split: prod.splits)
    with c show ?thesis by auto
  qed
  have plain: "concat (map (kept \<circ> outcome) contents) \<noteq> []"
    if "filter (\<lambda>c. \<not> isScopedPkgDir c) contents \<noteq> []"
  proof -
    from that obtain c where c: "c \<in> set contents" and n: "\<not> isScopedPkgDir c"
      by (auto simp: filter_empty_conv)
    then have "kept (outcome c) \<noteq> []"
      by (simp add: kept_def outcome_def)
    with c show ?thesis by auto
  qed
  show ?case
    using err plain
    by (subst cleanEntries_unfold, subst spec_clean_unfold)
      (auto simp: Let_def contents_def[symmetric] remaining[symmetric])
qed

text \<open>The steps of the specification remove no regular file.\<close>

lemma regularFilesIn_append:
  "regularFilesIn (xs @ ys) = regularFilesIn xs @ regularFilesIn ys"
  by (induction xs) auto

lemma regularFilesIn_concat:
  "regularFilesIn (concat xss) = concat (map regularFilesIn xss)"
  by (induction xss) (auto simp: regularFilesIn_append)

lemma regularFilesIn_map:
  "regularFilesIn cs = concat (map (\<lambda>c. map ((#) (fst c)) (regularFiles (snd c))) cs)"
  by (induction cs) auto

lemma spec_clean_survivors:
  "(case spec_clean listing of None \<Rightarrow> [] | Some r \<Rightarrow> r) = concat (map survivor listing)"
  by (subst spec_clean_unfold) simp

lemma spec_clean_regularFiles:
  "regularFilesIn (concat (map survivor listing)) = regularFilesIn listing"
proof (induction listing rule: spec_clean.induct)
  case (1 listing)
  have "regularFilesIn (survivor c) = map ((#) (fst c)) (regularFiles (snd c))"
    if "c \<in> set listing" for c
  proof (cases "snd c")
    case File
    then show ?thesis
      by (simp add: survivor_def isSymbolicLink_def isDirectory_def)
  next
    case (Symlink t)
    then show ?thesis
      by (simp add: survivor_def isSymbolicLink_def)
  next
    case (Dir sub)
    show ?thesis
    proof (cases "take 1 (fst c) = ''@''")
      case True
      have "regularFilesIn (concat (map survivor (readdir (snd c)))) =
              regularFilesIn (readdir (snd c))"
        using "1.IH"[of c] that Dir True by (simp add: isSymbolicLink_def isDirectory_def)
      then have "regularFilesIn (case spec_clean sub of None \<Rightarrow> [] | Some r \<Rightarrow> r) =
                   regularFilesIn sub"
        using Dir by (simp add: spec_clean_survivors)
      then show ?thesis
        using Dir True
        by (auto simp: survivor_def isSymbolicLink_def isDirectory_def split: option.splits)
    next
      case False
      then show ?thesis
        using Dir by (simp add: survivor_def isSymbolicLink_def isDirectory_def)
    qed
  qed
  then have pointwise: "map (regularFilesIn \<circ> survivor) listing =
               map (\<lambda>c. map ((#) (fst c)) (regularFiles (snd c))) listing"
    by simp
  have "regularFilesIn (concat (map survivor listing)) =
          concat (map (regularFilesIn \<circ> survivor) listing)"
    by (simp add: regularFilesIn_concat)
  also have "\<dots> = concat (map (\<lambda>c. map ((#) (fst c)) (regularFiles (snd c))) listing)"
    by (simp only: pointwise)
  also have "\<dots> = regularFilesIn listing"
    by (rule regularFilesIn_map[symmetric])
  finally show ?case .
qed

lemma survivor_plain:
  "\<not> isSymbolicLink (snd c) \<Longrightarrow> \<not> isScopedPkgDir c \<Longrightarrow> survivor c = [c]"
  by (auto simp: survivor_def isScopedPkgDir_def)

lemma survivor_scoped:
  "\<not> isSymbolicLink (snd c) \<Longrightarrow> isScopedPkgDir c \<Longrightarrow>
     survivor c = (case spec_clean (readdir (snd c)) of None \<Rightarrow> [] | Some r \<Rightarrow> [(fst c, Dir r)])"
  by (auto simp: survivor_def isScopedPkgDir_def)

lemma spec_clean_member:
  assumes "c \<in> set listing" and "x \<in> set (survivor c)"
  shows "\<exists>r. spec_clean listing = Some r \<and> x \<in> set r"
proof -
  have "x \<in> set (concat (map survivor listing))"
    using assms by auto
  moreover from this have "concat (map survivor listing) \<noteq> []"
    by (cases "concat (map survivor listing)") simp_all
  ultimately show ?thesis
    by (subst spec_clean_unfold) simp
qed

text \<open>
  When a scoped directory keeps an entry, the last step still calls \<^verbatim>\<open>fs.rmdir\<close>, as
  nothing is left in \<^verbatim>\<open>contents\<close>; the call rejects and the directory stays.
\<close>

lemma clean_rmdir_rejects:
  "clean (Directory [(''lodash'', Symlink [''..'', ''..'', ''node_modules'', ''lodash'']), typesDir]) =
     (Directory [typesDir], Some ENOTEMPTY)"
  by code_simp




text \<open>
  C10.  An entry that is neither a link nor a directory whose name begins with \<^verbatim>\<open>@\<close>
  is in the directory after \<^verbatim>\<open>clean\<close> as it was before; a scoped directory that its
  own \<^verbatim>\<open>clean\<close> has not emptied is there with what that left; and the regular files
  below the directory are the same before and after.
\<close>

theorem clean_keeps_files:
  "(c \<in> set listing \<longrightarrow> \<not> isSymbolicLink (snd c) \<longrightarrow> \<not> isScopedPkgDir c \<longrightarrow>
      (\<exists>r. fst (cleanEntries listing) = Some r \<and> c \<in> set r)) \<and>
   (c \<in> set listing \<longrightarrow> isScopedPkgDir c \<longrightarrow>
      fst (cleanEntries (readdir (snd c))) = Some sub \<longrightarrow>
      (\<exists>r. fst (cleanEntries listing) = Some r \<and> (fst c, Dir sub) \<in> set r)) \<and>
   regularFilesIn (case fst (cleanEntries listing) of None \<Rightarrow> [] | Some r \<Rightarrow> r) =
     regularFilesIn listing"
proof (intro conjI impI)
  assume "c \<in> set listing" and "\<not> isSymbolicLink (snd c)" and "\<not> isScopedPkgDir c"
  then show "\<exists>r. fst (cleanEntries listing) = Some r \<and> c \<in> set r"
    using spec_clean_member[of c listing c]
    by (simp add: cleanEntries_spec survivor_plain)
next
  assume c: "c \<in> set listing" and s: "isScopedPkgDir c"
    and r: "fst (cleanEntries (readdir (snd c))) = Some sub"
  from s have "\<not> isSymbolicLink (snd c)"
    by (auto simp: isScopedPkgDir_def isDirectory_def isSymbolicLink_def split: node.splits)
  then have "survivor c = [(fst c, Dir sub)]"
    using s r by (simp add: survivor_scoped cleanEntries_spec)
  then show "\<exists>r. fst (cleanEntries listing) = Some r \<and> (fst c, Dir sub) \<in> set r"
    using spec_clean_member[of c listing "(fst c, Dir sub)"] c
    by (simp add: cleanEntries_spec)
next
  show "regularFilesIn (case fst (cleanEntries listing) of None \<Rightarrow> [] | Some r \<Rightarrow> r) =
     regularFilesIn listing"
    by (simp add: cleanEntries_spec spec_clean_survivors spec_clean_regularFiles)
qed

lemma sample_plain:
  "(''notes.txt'', File) \<in> set sampleModules \<and>
   \<not> isSymbolicLink (snd (''notes.txt'', File)) \<and>
   \<not> isScopedPkgDir (''notes.txt'', File)"
  by code_simp

lemma sample_scoped:
  "typesDir \<in> set sampleModules \<and> isScopedPkgDir typesDir \<and>
   fst (cleanEntries (readdir (snd typesDir))) = Some [(''node'', Dir [(''index.d.ts'', File)])]"
  by code_simp

theorem clean_keeps_files_witness:
  "(\<exists>r. fst (cleanEntries sampleModules) = Some r \<and> (''notes.txt'', File) \<in> set r) \<and>
   (\<exists>r. fst (cleanEntries sampleModules) = Some r \<and>
        (fst typesDir, Dir [(''node'', Dir [(''index.d.ts'', File)])]) \<in> set r)"
proof
  show "\<exists>r. fst (cleanEntries sampleModules) = Some r \<and> (''notes.txt'', File) \<in> set r"
    using clean_keeps_files[THEN conjunct1, rule_format, of "(''notes.txt'', File)" sampleModules]
      sample_plain
    by simp
  show "\<exists>r. fst (cleanEntries sampleModules) = Some r \<and>
        (fst typesDir, Dir [(''node'', Dir [(''index.d.ts'', File)])]) \<in> set r"
    using clean_keeps_files[THEN conjunct2, THEN conjunct1, rule_format, of typesDir sampleModules
        "[(''node'', Dir [(''index.d.ts'', File)])]"]
      sample_scoped
    by simp
qed


end
